theory Spec2Isabelle
  imports Main "HOL-Library.AList"
begin

section \<open>Data model\<close>

text \<open>
  Modelled from the spec: \<^verbatim>\<open>level.hpp\<close> (the declaration of \<^verbatim>\<open>Level\<close>) is not among the
  sources. The spec lists the severities trace, debug, info, warn, error, critical, off;
  the source itself names \<^verbatim>\<open>Level::info\<close>.
\<close>

datatype Level = trace | debug | info | warn | err | critical | off

text \<open>
  Objects are referred to by address. A \<^verbatim>\<open>logger_ptr\<close> is a
  \<^verbatim>\<open>std::shared_ptr<spdlog::logger>\<close>: \<open>None\<close> is the null pointer, \<open>Some a\<close> points
  to the logger object at address \<open>a\<close>. Two pointers denote the identical object exactly
  when they are equal.
\<close>

type_synonym addr = nat
type_synonym logger_ptr = "addr option"
type_synonym sink_ptr = nat

text \<open>
  Modelled from the spec: \<^verbatim>\<open>spdlog::logger\<close> is the external backend's logger. Of its
  state the model keeps what \<^verbatim>\<open>catlogger.cpp\<close> gives it: the name and the sink passed to
  the constructor, and the level. The backend's constructor starts a logger at level
  info; \<^verbatim>\<open>set_level\<close> overwrites the level.
\<close>

record spd_logger =
  lg_name :: string
  lg_sinks :: "sink_ptr list"
  lg_level :: Level

definition spd_logger_ctor :: "string \<Rightarrow> sink_ptr \<Rightarrow> spd_logger" where
  "spd_logger_ctor n snk = \<lparr>lg_name = n, lg_sinks = [snk], lg_level = info\<rparr>"

definition set_level :: "Level \<Rightarrow> spd_logger \<Rightarrow> spd_logger" where
  "set_level l lg = lg\<lparr>lg_level := l\<rparr>"

text \<open>
  \<^verbatim>\<open>CategoryLogger::master_sink\<close> is a \<^verbatim>\<open>static const\<close> pointer to the one distribution
  sink allocated at static initialisation, so it is a constant. Sink addresses are a
  space of their own. What is attached to that sink is not read or written by any
  function of \<^verbatim>\<open>catlogger.cpp\<close>; it is part of the \<open>world\<close> component below.
\<close>

definition master_sink :: sink_ptr where
  "master_sink = 0"

text \<open>
  The process state: the static members \<^verbatim>\<open>loggers_\<close> and \<^verbatim>\<open>loggers_default_level_\<close>,
  the logger objects allocated by \<^verbatim>\<open>std::make_shared\<close> (the object at address \<open>a\<close> is
  \<open>heap s ! a\<close>; the registry keeps a reference to every logger it creates, so none is
  ever freed), and \<open>world\<close>: whatever else the callbacks handed to
  \<^verbatim>\<open>for_each_cat_logger\<close> may read and write.

  \<^verbatim>\<open>loggers_\<close> is a \<^verbatim>\<open>std::unordered_map\<close>. It is kept as the list of its entries in
  the order its iterator yields them. That order is unspecified: no theorem below
  depends on where an entry stands. (A name cannot end in an underscore here: the
  fields are \<open>loggers\<close> and \<open>loggers_default_level\<close>.)
\<close>

record 'w state =
  loggers :: "(string \<times> logger_ptr) list"
  loggers_default_level :: Level
  heap :: "spd_logger list"
  world :: 'w

text \<open>The state after static initialisation (lines 10 to 13 of \<^verbatim>\<open>catlogger.cpp\<close>).\<close>

definition init_state :: "'w \<Rightarrow> 'w state" where
  "init_state w = \<lparr>loggers = [], loggers_default_level = info, heap = [], world = w\<rparr>"

text \<open>The members of a \<^verbatim>\<open>CategoryLogger\<close> object.\<close>

record CategoryLogger =
  have_logger :: bool
  logger :: logger_ptr
  name :: string

section \<open>Operations\<close>

text \<open>
  The constructor \<^verbatim>\<open>explicit CategoryLogger(std::string name)\<close> and the shortcut
  \<^verbatim>\<open>Cat\<close>: the name is stored, \<^verbatim>\<open>have_logger\<close> is false and \<^verbatim>\<open>logger\<close> is null. The
  constructor neither takes nor returns the process state.
\<close>

definition CategoryLogger_ctor :: "string \<Rightarrow> CategoryLogger" where
  "CategoryLogger_ctor n = \<lparr>have_logger = False, logger = None, name = n\<rparr>"

definition Cat :: "string \<Rightarrow> CategoryLogger" where
  "Cat c = CategoryLogger_ctor c"

text \<open>
  \<^verbatim>\<open>loggers_[name]\<close>: \<^verbatim>\<open>operator[]\<close> of the map returns the value stored under the key,
  after inserting a value-initialised (null) pointer when the key is absent.
\<close>

definition subscript ::
  "(string \<times> logger_ptr) list \<Rightarrow> string \<Rightarrow> logger_ptr \<times> (string \<times> logger_ptr) list" where
  "subscript m k =
     (case map_of m k of
        Some p \<Rightarrow> (p, m)
      | None \<Rightarrow> (None, m @ [(k, None)]))"

text \<open>
  \<^verbatim>\<open>CategoryLogger::find_or_make_logger\<close>. \<^verbatim>\<open>known_logger\<close> is a reference into the map,
  so assigning to it overwrites the entry under \<^verbatim>\<open>name\<close>. \<^verbatim>\<open>std::make_shared\<close>
  allocates the new logger at the next free address.
\<close>

definition find_or_make_logger ::
  "CategoryLogger \<Rightarrow> 'w state \<Rightarrow> CategoryLogger \<times> 'w state" where
  "find_or_make_logger h s =
     (if have_logger h then (h, s)
      else
        (case subscript (loggers s) (name h) of
           (None, m) \<Rightarrow>
             (let a = length (heap s);
                  obj = set_level (loggers_default_level s) (spd_logger_ctor (name h) master_sink)
              in (h\<lparr>have_logger := True, logger := Some a\<rparr>,
                  s\<lparr>loggers := AList.update (name h) (Some a) m, heap := heap s @ [obj]\<rparr>))
         | (Some a, m) \<Rightarrow>
             (h\<lparr>have_logger := True, logger := Some a\<rparr>, s\<lparr>loggers := m\<rparr>)))"

text \<open>
  \<^verbatim>\<open>CategoryLogger::operator const logger_ptr&\<close>: the pointer returned, the handle and
  the process state afterwards.
\<close>

definition operator_logger_ptr ::
  "CategoryLogger \<Rightarrow> 'w state \<Rightarrow> logger_ptr \<times> CategoryLogger \<times> 'w state" where
  "operator_logger_ptr h s =
     (if have_logger h then (logger h, h, s)
      else (case find_or_make_logger h s of (h', s') \<Rightarrow> (logger h', h', s')))"

text \<open>
  The range-for of \<^verbatim>\<open>for_each_cat_logger\<close>: \<^verbatim>\<open>f(name, *logger)\<close> for each entry in
  turn. Dereferencing a null pointer is undefined behaviour: the result is \<open>None\<close>.
  The callback receives the logger by reference, here its address, and may change the
  process state.
\<close>

fun visit_each ::
  "(string \<Rightarrow> addr \<Rightarrow> 'w state \<Rightarrow> 'w state) \<Rightarrow> (string \<times> logger_ptr) list \<Rightarrow> 'w state
     \<Rightarrow> 'w state option" where
  "visit_each f [] s = Some s"
| "visit_each f ((n, None) # es) s = None"
| "visit_each f ((n, Some a) # es) s = visit_each f es (f n a s)"

text \<open>
  \<^verbatim>\<open>for_each_cat_logger\<close>. A \<^verbatim>\<open>std::function\<close> may be empty: \<open>None\<close>. The map is a
  private member that the callbacks cannot reach, so the loop runs over the entries
  present at the call.
\<close>

definition for_each_cat_logger ::
  "(string \<Rightarrow> addr \<Rightarrow> 'w state \<Rightarrow> 'w state) option \<Rightarrow> ('w state \<Rightarrow> 'w state) option
     \<Rightarrow> 'w state \<Rightarrow> 'w state option" where
  "for_each_cat_logger f and_then s =
     (case (case f of None \<Rightarrow> Some s | Some f' \<Rightarrow> visit_each f' (loggers s) s) of
        None \<Rightarrow> None
      | Some s1 \<Rightarrow>
          (case and_then of None \<Rightarrow> Some s1 | Some g \<Rightarrow> Some (g s1)))"

text \<open>\<^verbatim>\<open>detail::set_default_catlogger_level\<close> and \<^verbatim>\<open>detail::get_default_catlogger_level\<close>.\<close>

definition set_default_catlogger_level :: "Level \<Rightarrow> 'w state \<Rightarrow> 'w state" where
  "set_default_catlogger_level level s = s\<lparr>loggers_default_level := level\<rparr>"

definition get_default_catlogger_level :: "'w state \<Rightarrow> Level" where
  "get_default_catlogger_level s = loggers_default_level s"

section \<open>Client programs\<close>

text \<open>
  What client code can do with this interface: construct a handle, access a handle it
  has constructed, enumerate with callbacks, and set or read the default level. A
  \<open>system\<close> is the process state together with the handles constructed so far; a
  handle is referred to by its position in \<open>handles\<close>.
\<close>

record 'w system =
  globals :: "'w state"
  handles :: "CategoryLogger list"

datatype 'w call =
    Construct string
  | Access nat
  | ForEach "(string \<Rightarrow> addr \<Rightarrow> 'w state \<Rightarrow> 'w state) option" "('w state \<Rightarrow> 'w state) option"
  | SetDefaultLevel Level
  | GetDefaultLevel

text \<open>The process right after static initialisation, before any handle exists.\<close>

definition boot :: "'w \<Rightarrow> 'w system" where
  "boot w = \<lparr>globals = init_state w, handles = []\<rparr>"

text \<open>
  One call. \<open>None\<close> is the undefined behaviour of \<open>visit_each\<close>. A handle that was
  never constructed cannot be accessed: such a call is skipped.
\<close>

fun exec :: "'w call \<Rightarrow> 'w system \<Rightarrow> 'w system option" where
  "exec (Construct n) sys = Some (sys\<lparr>handles := handles sys @ [Cat n]\<rparr>)"
| "exec (Access i) sys =
     (if i < length (handles sys) then
        (case operator_logger_ptr (handles sys ! i) (globals sys) of
           (p, h', s') \<Rightarrow> Some (sys\<lparr>globals := s', handles := (handles sys)[i := h']\<rparr>))
      else Some sys)"
| "exec (ForEach f and_then) sys =
     (case for_each_cat_logger f and_then (globals sys) of
        None \<Rightarrow> None
      | Some s' \<Rightarrow> Some (sys\<lparr>globals := s'\<rparr>))"
| "exec (SetDefaultLevel l) sys =
     Some (sys\<lparr>globals := set_default_catlogger_level l (globals sys)\<rparr>)"
| "exec GetDefaultLevel sys = Some sys"

fun run :: "'w call list \<Rightarrow> 'w system \<Rightarrow> 'w system option" where
  "run [] sys = Some sys"
| "run (c # cs) sys = (case exec c sys of None \<Rightarrow> None | Some sys' \<Rightarrow> run cs sys')"

text \<open>
  What a callback cannot do. \<^verbatim>\<open>loggers_\<close> is a private static member, and the only
  functions that touch it lock the non-recursive \<^verbatim>\<open>loggers_mutex_\<close>, which
  \<^verbatim>\<open>for_each_cat_logger\<close> holds while the callbacks run. The logger objects of the
  registry are created by \<^verbatim>\<open>find_or_make_logger\<close> alone, are kept alive by the registry,
  and the backend has no operation that renames a logger.
\<close>

definition callback_ok :: "('w state \<Rightarrow> 'w state) \<Rightarrow> bool" where
  "callback_ok g \<longleftrightarrow>
     (\<forall>s. loggers (g s) = loggers s \<and> map lg_name (heap (g s)) = map lg_name (heap s))"

fun call_ok :: "'w call \<Rightarrow> bool" where
  "call_ok (ForEach f and_then) \<longleftrightarrow>
     (case f of None \<Rightarrow> True | Some f' \<Rightarrow> \<forall>n a. callback_ok (f' n a)) \<and>
     (case and_then of None \<Rightarrow> True | Some g \<Rightarrow> callback_ok g)"
| "call_ok _ \<longleftrightarrow> True"

text \<open>
  A call that is not a call of the setter: it is none itself, and its callbacks leave
  the default level as it is.
\<close>

fun keeps_default :: "'w call \<Rightarrow> bool" where
  "keeps_default (SetDefaultLevel l) \<longleftrightarrow> False"
| "keeps_default (ForEach f and_then) \<longleftrightarrow>
     (case f of None \<Rightarrow> True
      | Some f' \<Rightarrow> \<forall>n a s. loggers_default_level (f' n a s) = loggers_default_level s) \<and>
     (case and_then of None \<Rightarrow> True
      | Some g \<Rightarrow> \<forall>s. loggers_default_level (g s) = loggers_default_level s)"
| "keeps_default _ \<longleftrightarrow> True"

section \<open>Invariants\<close>

text \<open>No entry of the registry holds a null pointer.\<close>

definition no_null :: "(string \<times> logger_ptr) list \<Rightarrow> bool" where
  "no_null m \<longleftrightarrow> None \<notin> snd ` set m"

text \<open>
  The registry and the logger objects it has created: no name is registered twice, and
  the entries are exactly the objects created, each under its own name.
\<close>

definition registry_inv :: "'w state \<Rightarrow> bool" where
  "registry_inv s \<longleftrightarrow>
     distinct (map fst (loggers s)) \<and>
     set (loggers s) = (\<lambda>a. (lg_name (heap s ! a), Some a)) ` {..<length (heap s)}"

text \<open>A resolved handle caches the pointer that the registry holds under its name.\<close>

definition handle_inv :: "'w state \<Rightarrow> CategoryLogger \<Rightarrow> bool" where
  "handle_inv s h \<longleftrightarrow> (have_logger h \<longrightarrow> (name h, logger h) \<in> set (loggers s))"

definition sys_inv :: "'w system \<Rightarrow> bool" where
  "sys_inv sys \<longleftrightarrow>
     registry_inv (globals sys) \<and> (\<forall>h \<in> set (handles sys). handle_inv (globals sys) h)"

text \<open>
  How a system can change over time: the registry keeps its entries, and the handles
  constructed so far keep their names and, once resolved, all their members.
\<close>

definition evolves :: "'w system \<Rightarrow> 'w system \<Rightarrow> bool" where
  "evolves sys sys' \<longleftrightarrow>
     set (loggers (globals sys)) \<subseteq> set (loggers (globals sys')) \<and>
     length (handles sys) \<le> length (handles sys') \<and>
     (\<forall>i<length (handles sys).
        name (handles sys' ! i) = name (handles sys ! i) \<and>
        (have_logger (handles sys ! i) \<longrightarrow> handles sys' ! i = handles sys ! i))"

text \<open>The (name, logger object) pairs of the registry, in iteration order.\<close>

definition entries :: "(string \<times> logger_ptr) list \<Rightarrow> (string \<times> addr) list" where
  "entries m = concat (map (\<lambda>(n, p). case p of None \<Rightarrow> [] | Some a \<Rightarrow> [(n, a)]) m)"

text \<open>Callbacks that only write down that they were called, for counting calls.\<close>

datatype event = Visit string addr | AndThen

definition record_visit :: "string \<Rightarrow> addr \<Rightarrow> event list state \<Rightarrow> event list state" where
  "record_visit n a s = s\<lparr>world := world s @ [Visit n a]\<rparr>"

definition record_and_then :: "event list state \<Rightarrow> event list state" where
  "record_and_then s = s\<lparr>world := world s @ [AndThen]\<rparr>"

text \<open>
  A visitor that calls \<^verbatim>\<open>set_level(l)\<close> on the logger it is given, as the enumeration
  is meant to be used; and the calls of the scenario of the specification: two handles
  for one name, all levels and the default level set to warn, then a third handle.
\<close>

definition set_logger_level :: "Level \<Rightarrow> string \<Rightarrow> addr \<Rightarrow> 'w state \<Rightarrow> 'w state" where
  "set_logger_level l n a s = s\<lparr>heap := (heap s)[a := set_level l (heap s ! a)]\<rparr>"

definition scenario :: "unit call list" where
  "scenario =
     [Construct ''net'', Access 0, Construct ''net'', Access 1,
      ForEach (Some (set_logger_level warn)) (Some (set_default_catlogger_level warn)),
      Construct ''disk'', Access 2]"

text \<open>The state the scenario ends in, and some calls made after it.\<close>

definition scenario_end :: "unit system" where
  "scenario_end =
     \<lparr>globals =
        \<lparr>loggers = [(''net'', Some 0), (''disk'', Some 1)],
         loggers_default_level = warn,
         heap = [\<lparr>lg_name = ''net'', lg_sinks = [master_sink], lg_level = warn\<rparr>,
                 \<lparr>lg_name = ''disk'', lg_sinks = [master_sink], lg_level = warn\<rparr>],
         world = ()\<rparr>,
      handles = [\<lparr>have_logger = True, logger = Some 0, name = ''net''\<rparr>,
                 \<lparr>have_logger = True, logger = Some 0, name = ''net''\<rparr>,
                 \<lparr>have_logger = True, logger = Some 1, name = ''disk''\<rparr>]\<rparr>"

definition later_calls :: "unit call list" where
  "later_calls =
     [SetDefaultLevel err, ForEach (Some (set_logger_level critical)) None, Access 0,
      Construct ''rpc'', Access 3, GetDefaultLevel]"

text \<open>
  The process once a handle named net has been constructed and accessed, and the calls
  used to look at the default level afterwards.
\<close>

definition net_resolved :: "unit system" where
  "net_resolved =
     \<lparr>globals =
        \<lparr>loggers = [(''net'', Some 0)],
         loggers_default_level = info,
         heap = [\<lparr>lg_name = ''net'', lg_sinks = [master_sink], lg_level = info\<rparr>],
         world = ()\<rparr>,
      handles = [\<lparr>have_logger = True, logger = Some 0, name = ''net''\<rparr>]\<rparr>"

definition quiet_calls :: "unit call list" where
  "quiet_calls = [GetDefaultLevel, Construct ''net'', Access 1, ForEach None None]"

text \<open>A registry with two entries and an empty record of calls.\<close>

definition two_entries :: "event list state" where
  "two_entries =
     \<lparr>loggers = [(''net'', Some 0), (''disk'', Some 1)],
      loggers_default_level = info,
      heap = [\<lparr>lg_name = ''net'', lg_sinks = [master_sink], lg_level = info\<rparr>,
              \<lparr>lg_name = ''disk'', lg_sinks = [master_sink], lg_level = info\<rparr>],
      world = []\<rparr>"

section \<open>Facts about the operations\<close>

lemma update_snoc_null:
  "k \<notin> fst ` set m \<Longrightarrow> AList.update k v (m @ [(k, w)]) = m @ [(k, v)]"
  by (induction m) auto

lemma subscript_absent:
  "map_of m k = None \<Longrightarrow> subscript m k = (None, m @ [(k, None)])"
  by (simp add: subscript_def)

lemma subscript_present:
  "map_of m k = Some p \<Longrightarrow> subscript m k = (p, m)"
  by (simp add: subscript_def)

lemma find_or_make_logger_resolved:
  "have_logger h \<Longrightarrow> find_or_make_logger h s = (h, s)"
  by (simp add: find_or_make_logger_def)

lemma find_or_make_logger_absent:
  assumes "\<not> have_logger h" and "map_of (loggers s) (name h) = None"
  shows "find_or_make_logger h s =
           (h\<lparr>have_logger := True, logger := Some (length (heap s))\<rparr>,
            s\<lparr>loggers := loggers s @ [(name h, Some (length (heap s)))],
              heap := heap s @ [\<lparr>lg_name = name h, lg_sinks = [master_sink],
                                 lg_level = loggers_default_level s\<rparr>]\<rparr>)"
proof -
  have "name h \<notin> fst ` set (loggers s)"
    using assms(2) by (simp add: map_of_eq_None_iff)
  then show ?thesis
    using assms
    by (simp add: find_or_make_logger_def subscript_absent update_snoc_null
        set_level_def spd_logger_ctor_def Let_def)
qed

lemma find_or_make_logger_present:
  assumes "\<not> have_logger h" and "map_of (loggers s) (name h) = Some (Some a)"
  shows "find_or_make_logger h s = (h\<lparr>have_logger := True, logger := Some a\<rparr>, s)"
  using assms by (simp add: find_or_make_logger_def subscript_present)

lemma access_resolved:
  "have_logger h \<Longrightarrow> operator_logger_ptr h s = (logger h, h, s)"
  by (simp add: operator_logger_ptr_def)

lemma find_or_make_logger_default:
  "find_or_make_logger h s = (h', s') \<Longrightarrow> loggers_default_level s' = loggers_default_level s"
  by (auto simp: find_or_make_logger_def Let_def split: if_splits prod.splits option.splits)

lemma entries_no_null:
  "no_null m \<Longrightarrow> map (\<lambda>(n, a). (n, Some a)) (entries m) = m"
  by (induction m) (auto simp: no_null_def entries_def split: option.splits)

lemma entries_set:
  "set (entries m) = {(n, a). (n, Some a) \<in> set m}"
  by (induction m) (auto simp: entries_def split: option.splits)

lemma entries_distinct:
  "distinct (map fst m) \<Longrightarrow> distinct (entries m)"
proof (induction m)
  case Nil
  then show ?case by (simp add: entries_def)
next
  case (Cons e m)
  obtain n p where e: "e = (n, p)" by (cases e)
  have "entries (e # m) = (case p of None \<Rightarrow> [] | Some a \<Rightarrow> [(n, a)]) @ entries m"
    by (simp add: entries_def e)
  moreover have "(n, a) \<notin> set (entries m)" for a
    using Cons.prems by (auto simp: entries_set e intro: rev_image_eqI)
  ultimately show ?case
    using Cons by (auto split: option.splits)
qed

lemma visit_each_fold:
  "no_null m \<Longrightarrow> visit_each f m s = Some (fold (\<lambda>(n, a). f n a) (entries m) s)"
proof (induction m arbitrary: s)
  case Nil
  then show ?case by (simp add: entries_def)
next
  case (Cons e m)
  obtain n p where e: "e = (n, p)" by (cases e)
  from Cons.prems obtain a where p: "p = Some a"
    by (cases p) (auto simp: no_null_def e)
  have "no_null m" using Cons.prems by (auto simp: no_null_def)
  then show ?case
    using Cons.IH by (simp add: e p entries_def)
qed

lemma visit_each_default:
  assumes "\<forall>n a s. loggers_default_level (f n a s) = loggers_default_level s"
    and "visit_each f m s = Some s'"
  shows "loggers_default_level s' = loggers_default_level s"
  using assms(2)
proof (induction m arbitrary: s)
  case Nil
  then show ?case by simp
next
  case (Cons e m)
  obtain n p where e: "e = (n, p)" by (cases e)
  show ?case
  proof (cases p)
    case None
    with Cons.prems show ?thesis by (simp add: e)
  next
    case (Some a)
    with Cons.prems have "visit_each f m (f n a s) = Some s'" by (simp add: e)
    from Cons.IH [OF this] assms(1) show ?thesis by simp
  qed
qed

lemma fold_callbacks_frame:
  assumes "\<forall>n a. callback_ok (f n a)"
  shows "loggers (fold (\<lambda>(n, a). f n a) es s) = loggers s \<and>
         map lg_name (heap (fold (\<lambda>(n, a). f n a) es s)) = map lg_name (heap s)"
  using assms by (induction es arbitrary: s) (auto simp: callback_ok_def)

lemma fold_record_visit:
  "fold (\<lambda>(n, a). record_visit n a) es s = s\<lparr>world := world s @ map (\<lambda>(n, a). Visit n a) es\<rparr>"
  by (induction es arbitrary: s) (auto simp: record_visit_def)

lemma for_each_cat_logger_eq:
  assumes "no_null (loggers s)"
  shows "for_each_cat_logger f g s =
           Some ((case g of None \<Rightarrow> id | Some g' \<Rightarrow> g')
                   ((case f of None \<Rightarrow> id
                     | Some f' \<Rightarrow> fold (\<lambda>(n, a). f' n a) (entries (loggers s))) s))"
  using assms by (cases f; cases g) (simp_all add: for_each_cat_logger_def visit_each_fold)

lemma for_each_cat_logger_frame:
  assumes nn: "no_null (loggers s)"
    and f: "case f of None \<Rightarrow> True | Some f' \<Rightarrow> \<forall>n a. callback_ok (f' n a)"
    and g: "case g of None \<Rightarrow> True | Some g' \<Rightarrow> callback_ok g'"
  shows "\<exists>s'. for_each_cat_logger f g s = Some s' \<and> loggers s' = loggers s \<and>
              map lg_name (heap s') = map lg_name (heap s)"
proof -
  define s1 where "s1 = (case f of None \<Rightarrow> id
                     | Some f' \<Rightarrow> fold (\<lambda>(n, a). f' n a) (entries (loggers s))) s"
  define s2 where "s2 = (case g of None \<Rightarrow> id | Some g' \<Rightarrow> g') s1"
  have 1: "loggers s1 = loggers s \<and> map lg_name (heap s1) = map lg_name (heap s)"
    using f fold_callbacks_frame by (cases f) (simp_all add: s1_def)
  have 2: "loggers s2 = loggers s1 \<and> map lg_name (heap s2) = map lg_name (heap s1)"
    using g by (cases g) (simp_all add: s2_def callback_ok_def)
  have "for_each_cat_logger f g s = Some s2"
    using for_each_cat_logger_eq [OF nn] by (simp add: s1_def s2_def)
  with 1 2 show ?thesis by simp
qed

section \<open>The invariants hold\<close>

lemma registry_inv_init: "registry_inv (init_state w)"
  by (simp add: registry_inv_def init_state_def)

lemma sys_inv_boot: "sys_inv (boot w)"
  by (simp add: sys_inv_def boot_def registry_inv_init)

lemma registry_inv_no_null: "registry_inv s \<Longrightarrow> no_null (loggers s)"
  by (auto simp: registry_inv_def no_null_def)

lemma no_null_lookup:
  "no_null m \<Longrightarrow> map_of m k = None \<or> (\<exists>a. map_of m k = Some (Some a))"
  by (cases "map_of m k") (auto simp: no_null_def dest!: map_of_SomeD intro: rev_image_eqI)

lemma registry_inv_cong:
  assumes "loggers s' = loggers s" and "map lg_name (heap s') = map lg_name (heap s)"
  shows "registry_inv s' = registry_inv s"
proof -
  have len: "length (heap s') = length (heap s)"
    using assms(2) by (metis length_map)
  have "\<And>a. a < length (heap s) \<Longrightarrow> lg_name (heap s' ! a) = lg_name (heap s ! a)"
    using assms(2) len by (metis nth_map)
  then have "(\<lambda>a. (lg_name (heap s' ! a), Some a)) ` {..<length (heap s)}
           = (\<lambda>a. (lg_name (heap s ! a), Some a)) ` {..<length (heap s)}"
    by (intro image_cong) auto
  then show ?thesis
    by (simp add: registry_inv_def assms(1) len)
qed

lemma registry_inv_absent:
  assumes inv: "registry_inv s" and abs: "map_of (loggers s) k = None"
    and obj: "lg_name obj = k"
  shows "registry_inv (s\<lparr>loggers := loggers s @ [(k, Some (length (heap s)))],
                          heap := heap s @ [obj]\<rparr>)"
proof -
  have k: "k \<notin> fst ` set (loggers s)"
    using abs by (simp add: map_of_eq_None_iff)
  have "(\<lambda>a. (lg_name ((heap s @ [obj]) ! a), Some a)) ` {..<Suc (length (heap s))}
        = insert (k, Some (length (heap s))) ((\<lambda>a. (lg_name (heap s ! a), Some a)) ` {..<length (heap s)})"
    using obj by (auto simp: lessThan_Suc nth_append)
  then show ?thesis
    using inv k by (simp add: registry_inv_def)
qed

lemma registry_inv_entry:
  assumes "registry_inv s" and "(n, p) \<in> set (loggers s)"
  shows "\<exists>a. p = Some a \<and> a < length (heap s) \<and> lg_name (heap s ! a) = n"
  using assms by (auto simp: registry_inv_def)

lemma registry_inv_heap:
  assumes inv: "registry_inv s"
  shows "distinct (map lg_name (heap s)) \<and> length (heap s) = length (loggers s)"
proof -
  have d: "distinct (map fst (loggers s))"
    and eq: "set (loggers s) = (\<lambda>a. (lg_name (heap s ! a), Some a)) ` {..<length (heap s)}"
    using inv by (simp_all add: registry_inv_def)
  have "a = b" if "a < length (heap s)" "b < length (heap s)"
    "lg_name (heap s ! a) = lg_name (heap s ! b)" for a b
  proof -
    have "(lg_name (heap s ! a), Some a) \<in> set (loggers s)"
      using that(1) eq by blast
    moreover have "(lg_name (heap s ! b), Some b) \<in> set (loggers s)"
      using that(2) eq by blast
    ultimately have "Some a = Some b"
      using eq_key_imp_eq_value [OF d] that(3) by metis
    then show ?thesis by simp
  qed
  then have 1: "distinct (map lg_name (heap s))"
    by (auto simp: distinct_conv_nth)
  have "inj_on (\<lambda>a. (lg_name (heap s ! a), Some a)) {..<length (heap s)}"
    by (auto simp: inj_on_def)
  then have "card (set (loggers s)) = length (heap s)"
    by (simp add: eq card_image)
  moreover have "distinct (loggers s)"
    using d by (rule distinct_map [THEN iffD1, THEN conjunct1])
  ultimately have "length (heap s) = length (loggers s)"
    by (simp add: distinct_card)
  with 1 show ?thesis by simp
qed

lemma find_or_make_logger_cases:
  assumes "registry_inv s" and "\<not> have_logger h"
  obtains
    (absent) "map_of (loggers s) (name h) = None"
  | (present) a where "map_of (loggers s) (name h) = Some (Some a)"
  using no_null_lookup [OF registry_inv_no_null [OF assms(1)], of "name h"] by auto

lemma find_or_make_logger_inv:
  assumes inv: "registry_inv s" and un: "\<not> have_logger h"
    and res: "find_or_make_logger h s = (h', s')"
  shows "registry_inv s' \<and> handle_inv s' h' \<and> set (loggers s) \<subseteq> set (loggers s') \<and>
         have_logger h' \<and> name h' = name h"
  using inv un
proof (cases rule: find_or_make_logger_cases)
  case absent
  show ?thesis
    using res registry_inv_absent [OF inv absent]
    by (auto simp: find_or_make_logger_absent [OF un absent] handle_inv_def)
next
  case (present a)
  have "(name h, Some a) \<in> set (loggers s)"
    using present by (rule map_of_SomeD)
  then show ?thesis
    using res inv by (auto simp: find_or_make_logger_present [OF un present] handle_inv_def)
qed

lemma handle_inv_mono:
  "handle_inv s h \<Longrightarrow> set (loggers s) \<subseteq> set (loggers s') \<Longrightarrow> handle_inv s' h"
  by (auto simp: handle_inv_def)

lemma access_inv:
  assumes inv: "registry_inv s" and h: "handle_inv s h"
    and res: "operator_logger_ptr h s = (p, h', s')"
  shows "registry_inv s' \<and> handle_inv s' h' \<and> set (loggers s) \<subseteq> set (loggers s') \<and>
         have_logger h' \<and> name h' = name h \<and> logger h' = p"
proof (cases "have_logger h")
  case True
  with res inv h show ?thesis by (auto simp: operator_logger_ptr_def)
next
  case False
  obtain h1 s1 where fm: "find_or_make_logger h s = (h1, s1)"
    by (cases "find_or_make_logger h s")
  with res False have eqs: "h1 = h'" "s1 = s'" "logger h' = p"
    by (auto simp: operator_logger_ptr_def)
  from find_or_make_logger_inv [OF inv False fm] show ?thesis
    unfolding eqs by (simp add: eqs(3))
qed

lemma access_present:
  assumes inv: "registry_inv s" and h: "handle_inv s h"
    and e: "(name h, Some a) \<in> set (loggers s)"
  shows "\<exists>h'. operator_logger_ptr h s = (Some a, h', s)"
proof (cases "have_logger h")
  case True
  have d: "distinct (map fst (loggers s))"
    using inv by (simp add: registry_inv_def)
  have "(name h, logger h) \<in> set (loggers s)"
    using h True by (simp add: handle_inv_def)
  from eq_key_imp_eq_value [OF d this e] True show ?thesis
    by (simp add: operator_logger_ptr_def)
next
  case False
  have d: "distinct (map fst (loggers s))"
    using inv by (simp add: registry_inv_def)
  have "map_of (loggers s) (name h) = Some (Some a)"
    using d e by (rule map_of_is_SomeI)
  from find_or_make_logger_present [OF False this] False show ?thesis
    by (simp add: operator_logger_ptr_def)
qed

lemma exec_inv:
  assumes inv: "sys_inv sys" and ok: "call_ok c"
  shows "\<exists>sys'. exec c sys = Some sys' \<and> sys_inv sys' \<and> evolves sys sys'"
proof (cases c)
  case (Construct n)
  then show ?thesis
    using inv
    by (auto simp: sys_inv_def evolves_def handle_inv_def Cat_def CategoryLogger_ctor_def
        nth_append)
next
  case (Access i)
  show ?thesis
  proof (cases "i < length (handles sys) \<and> \<not> have_logger (handles sys ! i)")
    case False
    then show ?thesis
      using inv Access by (auto simp: operator_logger_ptr_def evolves_def list_update_same_conv)
  next
    case True
    obtain h' s' where res: "find_or_make_logger (handles sys ! i) (globals sys) = (h', s')"
      by (cases "find_or_make_logger (handles sys ! i) (globals sys)")
    have rinv: "registry_inv (globals sys)"
      using inv by (simp add: sys_inv_def)
    note fm = find_or_make_logger_inv [OF rinv _ res]
    have ex: "exec c sys = Some (sys\<lparr>globals := s', handles := (handles sys)[i := h']\<rparr>)"
      using True res by (simp add: Access operator_logger_ptr_def)
    have "\<forall>h \<in> set ((handles sys)[i := h']). handle_inv s' h"
    proof
      fix h assume "h \<in> set ((handles sys)[i := h'])"
      then have "h = h' \<or> h \<in> set (handles sys)"
        using set_update_subset_insert by fastforce
      then show "handle_inv s' h"
        using fm True inv by (auto simp: sys_inv_def intro: handle_inv_mono)
    qed
    moreover have "evolves sys (sys\<lparr>globals := s', handles := (handles sys)[i := h']\<rparr>)"
      using fm True by (auto simp: evolves_def nth_list_update)
    ultimately show ?thesis
      using ex fm True by (auto simp: sys_inv_def)
  qed
next
  case (ForEach f g)
  have rinv: "registry_inv (globals sys)"
    using inv by (simp add: sys_inv_def)
  obtain s' where s': "for_each_cat_logger f g (globals sys) = Some s'"
      "loggers s' = loggers (globals sys)"
      "map lg_name (heap s') = map lg_name (heap (globals sys))"
    using for_each_cat_logger_frame [OF registry_inv_no_null [OF rinv], of f g] ok ForEach
    by auto
  have "registry_inv s'"
    using registry_inv_cong [OF s'(2,3)] rinv by simp
  then show ?thesis
    using inv s' ForEach by (auto simp: sys_inv_def evolves_def handle_inv_def)
next
  case (SetDefaultLevel l)
  then show ?thesis
    using inv
    by (auto simp: sys_inv_def evolves_def handle_inv_def registry_inv_def
        set_default_catlogger_level_def)
next
  case GetDefaultLevel
  then show ?thesis
    using inv by (auto simp: evolves_def)
qed

lemma evolves_trans: "evolves a b \<Longrightarrow> evolves b c \<Longrightarrow> evolves a c"
  unfolding evolves_def by (metis (no_types, lifting) order_trans less_le_trans)

lemma run_inv:
  assumes "sys_inv sys" and "\<forall>c \<in> set cs. call_ok c"
  shows "\<exists>sys'. run cs sys = Some sys' \<and> sys_inv sys' \<and> evolves sys sys'"
  using assms
proof (induction cs arbitrary: sys)
  case Nil
  then show ?case by (auto simp: evolves_def)
next
  case (Cons c cs)
  from exec_inv [OF Cons.prems(1), of c] Cons.prems(2)
  obtain sys1 where 1: "exec c sys = Some sys1" "sys_inv sys1" "evolves sys sys1"
    by auto
  from Cons.IH [OF 1(2)] Cons.prems(2)
  obtain sys2 where 2: "run cs sys1 = Some sys2" "sys_inv sys2" "evolves sys1 sys2"
    by auto
  show ?case
    using 1 2 evolves_trans by auto
qed

section \<open>Calls that leave the default level and the loggers alone\<close>

lemma exec_keeps_default:
  assumes "exec c sys = Some sys'" and "keeps_default c"
  shows "loggers_default_level (globals sys') = loggers_default_level (globals sys)"
proof (cases c)
  case (Construct n)
  with assms show ?thesis by auto
next
  case (Access i)
  with assms show ?thesis
    by (auto simp: operator_logger_ptr_def split: if_splits prod.splits
        dest: find_or_make_logger_default)
next
  case (ForEach f g)
  with assms show ?thesis
    by (cases f; cases g)
      (auto simp: for_each_cat_logger_def split: option.splits dest: visit_each_default)
next
  case (SetDefaultLevel l)
  with assms show ?thesis by simp
next
  case GetDefaultLevel
  with assms show ?thesis by auto
qed

lemma run_keeps_default:
  assumes "run cs sys = Some sys'" and "\<forall>c \<in> set cs. keeps_default c"
  shows "loggers_default_level (globals sys') = loggers_default_level (globals sys)"
  using assms
proof (induction cs arbitrary: sys)
  case Nil
  then show ?case by simp
next
  case (Cons c cs)
  then obtain sys1 where 1: "exec c sys = Some sys1" "run cs sys1 = Some sys'"
    by (auto split: option.splits)
  from Cons.IH [OF 1(2)] Cons.prems(2) exec_keeps_default [OF 1(1)]
  show ?case by simp
qed

lemma exec_heap_prefix:
  assumes "exec c sys = Some sys'" and "\<forall>f g. c \<noteq> ForEach f g"
  shows "\<exists>ys. heap (globals sys') = heap (globals sys) @ ys"
proof (cases c)
  case (Access i)
  with assms(1) show ?thesis
    by (auto simp: operator_logger_ptr_def find_or_make_logger_def Let_def
        split: if_splits prod.splits option.splits)
next
  case (ForEach f g)
  with assms(2) show ?thesis by simp
qed (use assms(1) in \<open>auto simp: set_default_catlogger_level_def\<close>)

lemma run_heap_prefix:
  assumes "run cs sys = Some sys'" and "\<forall>c \<in> set cs. \<forall>f g. c \<noteq> ForEach f g"
  shows "\<exists>ys. heap (globals sys') = heap (globals sys) @ ys"
  using assms
proof (induction cs arbitrary: sys)
  case Nil
  then show ?case by simp
next
  case (Cons c cs)
  then obtain sys1 where 1: "exec c sys = Some sys1" "run cs sys1 = Some sys'"
    by (auto split: option.splits)
  from exec_heap_prefix [OF 1(1)] Cons.IH [OF 1(2)] Cons.prems(2)
  show ?case by auto
qed

section \<open>The example runs\<close>

lemma callback_ok_set_logger_level: "callback_ok (set_logger_level l n a)"
proof -
  have "map lg_name (xs[a := set_level l (xs ! a)]) = map lg_name xs" for xs
    by (cases "a < length xs")
      (simp_all add: map_update set_level_def list_update_same_conv list_update_beyond)
  then show ?thesis
    by (simp add: callback_ok_def set_logger_level_def)
qed

lemma callback_ok_set_default: "callback_ok (set_default_catlogger_level l)"
  by (simp add: callback_ok_def set_default_catlogger_level_def)

lemma call_ok_scenario: "\<forall>c \<in> set scenario. call_ok c"
  by (simp add: scenario_def callback_ok_set_logger_level callback_ok_set_default)

lemma run_scenario: "run scenario (boot ()) = Some scenario_end"
  by (simp add: scenario_def scenario_end_def boot_def init_state_def Cat_def
      CategoryLogger_ctor_def operator_logger_ptr_def find_or_make_logger_def subscript_def
      Let_def set_level_def spd_logger_ctor_def for_each_cat_logger_def set_logger_level_def
      set_default_catlogger_level_def)

lemma sys_inv_scenario_end: "sys_inv scenario_end"
  using run_inv [OF sys_inv_boot call_ok_scenario] run_scenario by simp

lemma call_ok_later_calls: "\<forall>c \<in> set later_calls. call_ok c"
  by (simp add: later_calls_def callback_ok_set_logger_level)

lemma sys_inv_net_resolved: "sys_inv net_resolved"
proof -
  have "run [Construct ''net'', Access 0] (boot ()) = Some net_resolved"
    by (simp add: net_resolved_def boot_def init_state_def Cat_def CategoryLogger_ctor_def
        operator_logger_ptr_def find_or_make_logger_def subscript_def Let_def set_level_def
        spd_logger_ctor_def)
  moreover have "\<forall>c \<in> set [Construct ''net'', Access 0 :: unit call]. call_ok c"
    by simp
  from run_inv [OF sys_inv_boot this]
  obtain sys' where "run [Construct ''net'', Access 0] (boot ()) = Some sys'" "sys_inv sys'"
    by blast
  ultimately show ?thesis
    by (metis option.inject)
qed

lemma quiet_calls_ok: "\<forall>c \<in> set quiet_calls. call_ok c \<and> keeps_default c"
  by (simp add: quiet_calls_def)

section \<open>Category handles\<close>

text \<open>
  Claim C3. The constructor only stores the name (the handle is unresolved, its pointer
  null); it is a total function of the name alone. Constructing any number of handles
  succeeds and leaves the process state (the registry, the default level, the logger
  objects and the world, which holds what is attached to the master sink) as it was.
\<close>

theorem construction_frame:
  "CategoryLogger_ctor n = \<lparr>have_logger = False, logger = None, name = n\<rparr> \<and>
   Cat n = CategoryLogger_ctor n \<and>
   (\<exists>sys'. run (map Construct ns) sys = Some sys' \<and>
           globals sys' = globals sys \<and>
           handles sys' = handles sys @ map CategoryLogger_ctor ns)"
proof -
  have "run (map Construct ns) sys = Some (sys\<lparr>handles := handles sys @ map CategoryLogger_ctor ns\<rparr>)"
    by (induction ns arbitrary: sys) (simp_all add: Cat_def)
  then show ?thesis
    by (simp add: CategoryLogger_ctor_def Cat_def)
qed

theorem construction_frame_witness:
  "run (map Construct [''net'', ''disk'', ''net'']) (boot ()) =
     Some \<lparr>globals = init_state (),
           handles = [\<lparr>have_logger = False, logger = None, name = ''net''\<rparr>,
                      \<lparr>have_logger = False, logger = None, name = ''disk''\<rparr>,
                      \<lparr>have_logger = False, logger = None, name = ''net''\<rparr>]\<rparr>"
  using construction_frame [of "''net''" "[''net'', ''disk'', ''net'']" "boot ()"]
    construction_frame [of "''disk''" "[]" "boot ()"]
  by (auto simp: boot_def)

text \<open>
  Claim C2. Accessing a handle that is not yet resolved: when its name is absent from the
  registry, a new logger object is allocated at a fresh address, with the handle's name,
  the master sink and the current default level; it is entered in the registry under
  that name, the handle caches the pointer and is marked resolved, and the access
  returns the pointer. When the name is present with a logger, the handle caches that
  pointer, is marked resolved, and the process state is unchanged.
\<close>

theorem access_unresolved:
  assumes "\<not> have_logger h"
  shows "(map_of (loggers s) (name h) = None \<longrightarrow>
           (\<exists>s'. operator_logger_ptr h s =
                   (Some (length (heap s)),
                    h\<lparr>have_logger := True, logger := Some (length (heap s))\<rparr>, s') \<and>
                 heap s' = heap s @ [\<lparr>lg_name = name h, lg_sinks = [master_sink],
                                      lg_level = loggers_default_level s\<rparr>] \<and>
                 map_of (loggers s') = (map_of (loggers s))(name h \<mapsto> Some (length (heap s))) \<and>
                 loggers_default_level s' = loggers_default_level s \<and>
                 world s' = world s)) \<and>
         (\<forall>a. map_of (loggers s) (name h) = Some (Some a) \<longrightarrow>
              operator_logger_ptr h s = (Some a, h\<lparr>have_logger := True, logger := Some a\<rparr>, s))"
proof (intro conjI impI allI)
  assume absent: "map_of (loggers s) (name h) = None"
  show "\<exists>s'. operator_logger_ptr h s =
                   (Some (length (heap s)),
                    h\<lparr>have_logger := True, logger := Some (length (heap s))\<rparr>, s') \<and>
                 heap s' = heap s @ [\<lparr>lg_name = name h, lg_sinks = [master_sink],
                                      lg_level = loggers_default_level s\<rparr>] \<and>
                 map_of (loggers s') = (map_of (loggers s))(name h \<mapsto> Some (length (heap s))) \<and>
                 loggers_default_level s' = loggers_default_level s \<and>
                 world s' = world s"
    using assms absent
    by (auto simp: operator_logger_ptr_def find_or_make_logger_absent [OF assms absent]
        map_add_def fun_eq_iff split: option.splits)
next
  fix a
  assume "map_of (loggers s) (name h) = Some (Some a)"
  from find_or_make_logger_present [OF assms this]
  show "operator_logger_ptr h s = (Some a, h\<lparr>have_logger := True, logger := Some a\<rparr>, s)"
    using assms by (simp add: operator_logger_ptr_def)
qed

theorem access_unresolved_witness:
  "\<not> have_logger (Cat ''net'') \<and>
   map_of (loggers (init_state ())) (name (Cat ''net'')) = None \<and>
   operator_logger_ptr (Cat ''net'') (init_state ()) =
     (Some 0, \<lparr>have_logger = True, logger = Some 0, name = ''net''\<rparr>,
      \<lparr>loggers = [(''net'', Some 0)], loggers_default_level = info,
       heap = [\<lparr>lg_name = ''net'', lg_sinks = [master_sink], lg_level = info\<rparr>], world = ()\<rparr>) \<and>
   operator_logger_ptr (Cat ''net'')
      \<lparr>loggers = [(''net'', Some 0)], loggers_default_level = warn,
       heap = [\<lparr>lg_name = ''net'', lg_sinks = [master_sink], lg_level = info\<rparr>], world = ()\<rparr> =
     (Some 0, \<lparr>have_logger = True, logger = Some 0, name = ''net''\<rparr>,
      \<lparr>loggers = [(''net'', Some 0)], loggers_default_level = warn,
       heap = [\<lparr>lg_name = ''net'', lg_sinks = [master_sink], lg_level = info\<rparr>], world = ()\<rparr>)"
  using access_unresolved [of "Cat ''net''" "init_state ()"]
    access_unresolved [of "Cat ''net''" "\<lparr>loggers = [(''net'', Some 0)], loggers_default_level = warn,
       heap = [\<lparr>lg_name = ''net'', lg_sinks = [master_sink], lg_level = info\<rparr>], world = ()\<rparr>"]
  by (simp add: Cat_def CategoryLogger_ctor_def init_state_def operator_logger_ptr_def
      find_or_make_logger_def subscript_def Let_def set_level_def spd_logger_ctor_def)

text \<open>
  Claim C4. A resolved handle stays as it is through any later calls: its members are
  unchanged, an access returns the cached pointer and changes nothing, and a call of
  \<^verbatim>\<open>find_or_make_logger\<close> leaves the handle and the process state unchanged.
\<close>

theorem resolved_handle_fixed:
  assumes "sys_inv sys" and "\<forall>c \<in> set cs. call_ok c"
    and "i < length (handles sys)" and "have_logger (handles sys ! i)"
  shows "\<exists>sys'. run cs sys = Some sys' \<and>
           handles sys' ! i = handles sys ! i \<and>
           operator_logger_ptr (handles sys' ! i) (globals sys') =
             (logger (handles sys ! i), handles sys ! i, globals sys') \<and>
           find_or_make_logger (handles sys' ! i) (globals sys') =
             (handles sys ! i, globals sys')"
proof -
  from run_inv [OF assms(1,2)]
  obtain sys' where r: "run cs sys = Some sys'" "evolves sys sys'" by auto
  have "handles sys' ! i = handles sys ! i"
    using r(2) assms(3,4) by (simp add: evolves_def)
  then show ?thesis
    using r(1) assms(4)
    by (simp add: operator_logger_ptr_def find_or_make_logger_resolved)
qed

theorem resolved_handle_fixed_witness:
  "have_logger (handles scenario_end ! 0) \<and>
   (\<exists>sys'. run later_calls scenario_end = Some sys' \<and>
      handles sys' ! 0 = \<lparr>have_logger = True, logger = Some 0, name = ''net''\<rparr> \<and>
      operator_logger_ptr (handles sys' ! 0) (globals sys') =
        (Some 0, \<lparr>have_logger = True, logger = Some 0, name = ''net''\<rparr>, globals sys') \<and>
      find_or_make_logger (handles sys' ! 0) (globals sys') =
        (\<lparr>have_logger = True, logger = Some 0, name = ''net''\<rparr>, globals sys'))"
  using resolved_handle_fixed [OF sys_inv_scenario_end call_ok_later_calls, of 0]
  by (simp add: scenario_end_def)

section \<open>The registry\<close>

text \<open>
  Claim C1. After any sequence of calls the registry holds no name twice, no two logger
  objects created carry the same name, and there are as many objects as entries. Any
  two resolved handles with the same name cache the same non-null pointer. Accessing
  handles of one name, the same handle again or another one, returns the same pointer
  every time, and once the first access is done a further access changes nothing.
\<close>

theorem one_logger_per_name:
  assumes "sys_inv sys" and "\<forall>c \<in> set cs. call_ok c"
  shows "\<exists>sys'. run cs sys = Some sys' \<and>
           distinct (map fst (loggers (globals sys'))) \<and>
           distinct (map lg_name (heap (globals sys'))) \<and>
           length (heap (globals sys')) = length (loggers (globals sys')) \<and>
           (\<forall>h1 \<in> set (handles sys'). \<forall>h2 \<in> set (handles sys').
              have_logger h1 \<and> have_logger h2 \<and> name h1 = name h2 \<longrightarrow>
              logger h1 = logger h2 \<and> logger h1 \<noteq> None) \<and>
           (\<forall>h1 \<in> set (handles sys'). \<forall>h2 \<in> set (handles sys'). name h1 = name h2 \<longrightarrow>
              (\<exists>a h1' s1 h2'.
                 operator_logger_ptr h1 (globals sys') = (Some a, h1', s1) \<and>
                 operator_logger_ptr h1' s1 = (Some a, h1', s1) \<and>
                 operator_logger_ptr h2 s1 = (Some a, h2', s1) \<and>
                 a < length (heap s1) \<and> lg_name (heap s1 ! a) = name h1))"
proof -
  from run_inv [OF assms]
  obtain sys' where r: "run cs sys = Some sys'" and inv: "sys_inv sys'" by auto
  let ?g = "globals sys'"
  have rinv: "registry_inv ?g" and hinv: "\<And>h. h \<in> set (handles sys') \<Longrightarrow> handle_inv ?g h"
    using inv by (simp_all add: sys_inv_def)
  have d: "distinct (map fst (loggers ?g))"
    using rinv by (simp add: registry_inv_def)
  have same: "logger h1 = logger h2 \<and> logger h1 \<noteq> None"
    if "h1 \<in> set (handles sys')" "h2 \<in> set (handles sys')"
      "have_logger h1" "have_logger h2" "name h1 = name h2" for h1 h2
  proof -
    have 1: "(name h1, logger h1) \<in> set (loggers ?g)" "(name h1, logger h2) \<in> set (loggers ?g)"
      using hinv [OF that(1)] hinv [OF that(2)] that(3,4,5) by (simp_all add: handle_inv_def)
    from eq_key_imp_eq_value [OF d 1] registry_inv_entry [OF rinv 1(1)]
    show ?thesis by auto
  qed
  have twice: "\<exists>a h1' s1 h2'.
                 operator_logger_ptr h1 ?g = (Some a, h1', s1) \<and>
                 operator_logger_ptr h1' s1 = (Some a, h1', s1) \<and>
                 operator_logger_ptr h2 s1 = (Some a, h2', s1) \<and>
                 a < length (heap s1) \<and> lg_name (heap s1 ! a) = name h1"
    if "h1 \<in> set (handles sys')" "h2 \<in> set (handles sys')" "name h1 = name h2" for h1 h2
  proof -
    obtain p1 h1' s1 where a1: "operator_logger_ptr h1 ?g = (p1, h1', s1)"
      by (cases "operator_logger_ptr h1 ?g")
    note i1 = access_inv [OF rinv hinv [OF that(1)] a1]
    have r1: "registry_inv s1" and e1: "(name h1, p1) \<in> set (loggers s1)"
      using i1 by (auto simp: handle_inv_def)
    from registry_inv_entry [OF r1 e1]
    obtain a where a: "p1 = Some a" "a < length (heap s1)" "lg_name (heap s1 ! a) = name h1"
      by auto
    have again: "operator_logger_ptr h1' s1 = (Some a, h1', s1)"
      using i1 a(1) by (simp add: access_resolved)
    have "handle_inv s1 h2"
      using hinv [OF that(2)] i1 by (auto intro: handle_inv_mono)
    from access_present [OF r1 this, of a] e1 that(3) a(1)
    obtain h2' where "operator_logger_ptr h2 s1 = (Some a, h2', s1)"
      by auto
    with a1 a again show ?thesis by blast
  qed
  show ?thesis
    using r d registry_inv_heap [OF rinv] same twice by blast
qed

theorem one_logger_per_name_witness:
  "run scenario (boot ()) = Some scenario_end \<and>
   distinct (map fst (loggers (globals scenario_end))) \<and>
   distinct (map lg_name (heap (globals scenario_end))) \<and>
   length (heap (globals scenario_end)) = length (loggers (globals scenario_end)) \<and>
   name (handles scenario_end ! 0) = name (handles scenario_end ! 1) \<and>
   logger (handles scenario_end ! 0) = Some 0 \<and>
   logger (handles scenario_end ! 1) = Some 0 \<and>
   operator_logger_ptr (handles scenario_end ! 0) (globals scenario_end) =
     (Some 0, handles scenario_end ! 0, globals scenario_end) \<and>
   operator_logger_ptr (handles scenario_end ! 1) (globals scenario_end) =
     (Some 0, handles scenario_end ! 1, globals scenario_end)"
  using one_logger_per_name [OF sys_inv_boot call_ok_scenario] run_scenario
  by (auto simp: scenario_end_def operator_logger_ptr_def)

text \<open>
  Claim C9. Through any sequence of calls (construction, access, enumeration, setting
  and reading the default level) every entry of the registry stays in the registry, with
  the same pointer under the same name.
\<close>

theorem registry_only_grows:
  assumes "sys_inv sys" and "\<forall>c \<in> set cs. call_ok c"
  shows "\<exists>sys'. run cs sys = Some sys' \<and>
           set (loggers (globals sys)) \<subseteq> set (loggers (globals sys')) \<and>
           (\<forall>n p. map_of (loggers (globals sys)) n = Some p \<longrightarrow>
                  map_of (loggers (globals sys')) n = Some p)"
proof -
  from run_inv [OF assms]
  obtain sys' where r: "run cs sys = Some sys'" "sys_inv sys'" "evolves sys sys'" by auto
  have sub: "set (loggers (globals sys)) \<subseteq> set (loggers (globals sys'))"
    using r(3) by (simp add: evolves_def)
  have d: "distinct (map fst (loggers (globals sys')))"
    using r(2) by (simp add: sys_inv_def registry_inv_def)
  have "map_of (loggers (globals sys')) n = Some p"
    if "map_of (loggers (globals sys)) n = Some p" for n p
    using map_of_SomeD [OF that] sub d by (auto intro: map_of_is_SomeI)
  with r(1) sub show ?thesis by blast
qed

theorem registry_only_grows_witness:
  "\<exists>sys'. run later_calls scenario_end = Some sys' \<and>
      (''net'', Some 0) \<in> set (loggers (globals sys')) \<and>
      (''disk'', Some 1) \<in> set (loggers (globals sys')) \<and>
      map_of (loggers (globals sys')) ''net'' = Some (Some 0) \<and>
      map_of (loggers (globals sys')) ''disk'' = Some (Some 1)"
  using registry_only_grows [OF sys_inv_scenario_end call_ok_later_calls]
  by (auto simp: scenario_end_def)

section \<open>Enumeration\<close>

text \<open>
  Claim C6. \<^verbatim>\<open>for_each_cat_logger(f, and_then)\<close> applies \<open>f\<close> to the (name, logger) pairs
  of the registry one after the other, each pair once (the pairs are distinct and are
  exactly the entries), and then applies \<open>and_then\<close> once to the state the visits leave.
  Without \<open>f\<close> only \<open>and_then\<close> runs, without \<open>and_then\<close> only the visits, without both
  nothing changes. With the recording callbacks, the record grows by one \<open>Visit\<close> per
  entry followed by one \<open>AndThen\<close>.
\<close>

theorem for_each_cat_logger_calls:
  assumes "no_null (loggers s)" and "distinct (map fst (loggers s))"
    and "no_null (loggers t)"
  shows "for_each_cat_logger (Some f) (Some g) s =
           Some (g (fold (\<lambda>(n, a). f n a) (entries (loggers s)) s)) \<and>
         for_each_cat_logger (Some f) None s =
           Some (fold (\<lambda>(n, a). f n a) (entries (loggers s)) s) \<and>
         for_each_cat_logger None (Some g) s = Some (g s) \<and>
         for_each_cat_logger None None s = Some s \<and>
         map (\<lambda>(n, a). (n, Some a)) (entries (loggers s)) = loggers s \<and>
         distinct (entries (loggers s)) \<and>
         for_each_cat_logger (Some record_visit) (Some record_and_then) t =
           Some (t\<lparr>world := world t @ map (\<lambda>(n, a). Visit n a) (entries (loggers t)) @ [AndThen]\<rparr>) \<and>
         for_each_cat_logger (Some record_visit) None t =
           Some (t\<lparr>world := world t @ map (\<lambda>(n, a). Visit n a) (entries (loggers t))\<rparr>) \<and>
         for_each_cat_logger None (Some record_and_then) t =
           Some (t\<lparr>world := world t @ [AndThen]\<rparr>)"
  using assms
  by (simp add: for_each_cat_logger_eq entries_no_null entries_distinct fold_record_visit
      record_and_then_def)

theorem for_each_cat_logger_calls_witness:
  "no_null (loggers two_entries) \<and> distinct (map fst (loggers two_entries)) \<and>
   entries (loggers two_entries) = [(''net'', 0), (''disk'', 1)] \<and>
   for_each_cat_logger (Some record_visit) (Some record_and_then) two_entries =
     Some (two_entries\<lparr>world := [Visit ''net'' 0, Visit ''disk'' 1, AndThen]\<rparr>) \<and>
   for_each_cat_logger (Some record_visit) None two_entries =
     Some (two_entries\<lparr>world := [Visit ''net'' 0, Visit ''disk'' 1]\<rparr>) \<and>
   for_each_cat_logger None (Some record_and_then) two_entries =
     Some (two_entries\<lparr>world := [AndThen]\<rparr>) \<and>
   for_each_cat_logger (Some (set_logger_level warn)) (Some (set_default_catlogger_level warn))
       two_entries =
     Some (two_entries\<lparr>loggers_default_level := warn,
             heap := [\<lparr>lg_name = ''net'', lg_sinks = [master_sink], lg_level = warn\<rparr>,
                      \<lparr>lg_name = ''disk'', lg_sinks = [master_sink], lg_level = warn\<rparr>]\<rparr>)"
proof -
  have 1: "no_null (loggers two_entries)" "distinct (map fst (loggers two_entries))"
    by (simp_all add: two_entries_def no_null_def)
  have 2: "entries (loggers two_entries) = [(''net'', 0), (''disk'', 1)]"
    by (simp add: two_entries_def entries_def)
  show ?thesis
    using 1 2
      for_each_cat_logger_calls [OF 1 1(1), of "set_logger_level warn"
        "set_default_catlogger_level warn"]
    by (simp add: two_entries_def set_logger_level_def set_default_catlogger_level_def
        set_level_def)
qed

text \<open>
  Claim C7. With an empty registry, as right after static initialisation, the visitor is
  never applied (the result is that of a call without visitor) and \<open>and_then\<close>, when
  given, is applied once: the recording callbacks leave exactly one \<open>AndThen\<close>.
\<close>

theorem for_each_cat_logger_empty:
  assumes "loggers s = []" and "loggers t = []"
  shows "for_each_cat_logger (Some f) (Some g) s = Some (g s) \<and>
         for_each_cat_logger (Some f) None s = Some s \<and>
         for_each_cat_logger (Some f) and_then s = for_each_cat_logger None and_then s \<and>
         for_each_cat_logger (Some f) (Some g) (init_state w) = Some (g (init_state w)) \<and>
         for_each_cat_logger (Some record_visit) (Some record_and_then) t =
           Some (t\<lparr>world := world t @ [AndThen]\<rparr>) \<and>
         for_each_cat_logger (Some record_visit) None t = Some t"
  using assms
  by (cases and_then) (simp_all add: for_each_cat_logger_def record_and_then_def init_state_def)

theorem for_each_cat_logger_empty_witness:
  "loggers (init_state ([] :: event list)) = [] \<and>
   for_each_cat_logger (Some record_visit) (Some record_and_then) (init_state []) =
     Some \<lparr>loggers = [], loggers_default_level = info, heap = [], world = [AndThen]\<rparr> \<and>
   for_each_cat_logger (Some record_visit) None (init_state []) = Some (init_state [])"
  using for_each_cat_logger_empty [of "init_state []" "init_state []" record_visit
      record_and_then None "[]"]
  by (simp add: init_state_def record_and_then_def)

section \<open>The default level\<close>

text \<open>
  Claim C5. \<^verbatim>\<open>set_default_catlogger_level(L)\<close> changes the default level and nothing
  else: the registry, every logger object (so every level) and the world are as before.
  After the call and any further calls of which none is a call of the setter, accessing
  an unresolved handle whose name is not registered creates a logger at level \<open>L\<close>;
  accessing one whose name is registered returns the registered pointer and changes
  nothing, so that logger keeps the level it had. When none of the further calls is an
  enumeration, the loggers that existed before the call are all unchanged.
\<close>

theorem set_default_level_frame:
  assumes "sys_inv sys" and "\<forall>c \<in> set cs. call_ok c \<and> keeps_default c"
    and "\<not> have_logger h"
  shows "loggers (set_default_catlogger_level L s) = loggers s \<and>
         heap (set_default_catlogger_level L s) = heap s \<and>
         world (set_default_catlogger_level L s) = world s \<and>
         loggers_default_level (set_default_catlogger_level L s) = L \<and>
         (\<exists>sys'. run (SetDefaultLevel L # cs) sys = Some sys' \<and>
            ((\<forall>c \<in> set cs. \<forall>f g. c \<noteq> ForEach f g) \<longrightarrow>
               take (length (heap (globals sys))) (heap (globals sys')) = heap (globals sys)) \<and>
            (case map_of (loggers (globals sys')) (name h) of
               None \<Rightarrow>
                 (\<exists>h' s'. operator_logger_ptr h (globals sys') =
                            (Some (length (heap (globals sys'))), h', s') \<and>
                          heap s' = heap (globals sys') @
                            [\<lparr>lg_name = name h, lg_sinks = [master_sink], lg_level = L\<rparr>])
             | Some p \<Rightarrow>
                 (\<exists>h'. operator_logger_ptr h (globals sys') = (p, h', globals sys'))))"
proof -
  let ?sys1 = "sys\<lparr>globals := set_default_catlogger_level L (globals sys)\<rparr>"
  have "sys_inv ?sys1"
    using exec_inv [OF assms(1), of "SetDefaultLevel L"] by simp
  from run_inv [OF this, of cs] assms(2)
  obtain sys' where r: "run cs ?sys1 = Some sys'" and inv: "sys_inv sys'" by auto
  let ?g = "globals sys'"
  from run_keeps_default [OF r] assms(2)
  have dl: "loggers_default_level ?g = L"
    by (simp add: set_default_catlogger_level_def)
  have pre: "take (length (heap (globals sys))) (heap ?g) = heap (globals sys)"
    if "\<forall>c \<in> set cs. \<forall>f g. c \<noteq> ForEach f g"
    using run_heap_prefix [OF r that] by (auto simp: set_default_catlogger_level_def)
  have rinv: "registry_inv ?g"
    using inv by (simp add: sys_inv_def)
  have res: "case map_of (loggers ?g) (name h) of
               None \<Rightarrow>
                 (\<exists>h' s'. operator_logger_ptr h ?g = (Some (length (heap ?g)), h', s') \<and>
                          heap s' = heap ?g @
                            [\<lparr>lg_name = name h, lg_sinks = [master_sink], lg_level = L\<rparr>])
             | Some p \<Rightarrow> (\<exists>h'. operator_logger_ptr h ?g = (p, h', ?g))"
    using rinv assms(3)
  proof (cases rule: find_or_make_logger_cases)
    case absent
    then show ?thesis
      using assms(3) dl
      by (simp add: operator_logger_ptr_def find_or_make_logger_absent [OF assms(3) absent])
  next
    case (present a)
    then show ?thesis
      using assms(3)
      by (simp add: operator_logger_ptr_def find_or_make_logger_present [OF assms(3) present])
  qed
  show ?thesis
    using r pre res by (simp add: set_default_catlogger_level_def)
qed

theorem set_default_level_frame_witness:
  "\<not> have_logger (Cat ''disk'') \<and>
   (\<exists>sys'. run (SetDefaultLevel warn # quiet_calls) net_resolved = Some sys' \<and>
      heap (globals sys') = [\<lparr>lg_name = ''net'', lg_sinks = [master_sink], lg_level = info\<rparr>] \<and>
      loggers_default_level (globals sys') = warn \<and>
      (\<exists>h' s'. operator_logger_ptr (Cat ''disk'') (globals sys') = (Some 1, h', s') \<and>
         heap s' = [\<lparr>lg_name = ''net'', lg_sinks = [master_sink], lg_level = info\<rparr>,
                    \<lparr>lg_name = ''disk'', lg_sinks = [master_sink], lg_level = warn\<rparr>]))"
  using set_default_level_frame [OF sys_inv_net_resolved quiet_calls_ok,
      of "Cat ''disk''" warn "globals net_resolved"]
  by (simp add: Cat_def CategoryLogger_ctor_def quiet_calls_def net_resolved_def
      set_default_catlogger_level_def operator_logger_ptr_def find_or_make_logger_def
      subscript_def Let_def set_level_def spd_logger_ctor_def for_each_cat_logger_def)

text \<open>
  Claim C10. Reading the default level right after \<^verbatim>\<open>set_default_catlogger_level(L)\<close>
  gives \<open>L\<close>, and it still gives \<open>L\<close> after any further calls of which none is a call of
  the setter; before any call of the setter the default level is \<^verbatim>\<open>Level::info\<close>.
\<close>

theorem default_level_round_trip:
  assumes "sys_inv sys" and "\<forall>c \<in> set cs. call_ok c \<and> keeps_default c"
  shows "get_default_catlogger_level (init_state w) = info \<and>
         (\<exists>sys0. run cs (boot w) = Some sys0 \<and>
                 get_default_catlogger_level (globals sys0) = info) \<and>
         get_default_catlogger_level (set_default_catlogger_level L s) = L \<and>
         (\<exists>sys'. run (SetDefaultLevel L # cs) sys = Some sys' \<and>
                 get_default_catlogger_level (globals sys') = L)"
proof -
  let ?sys1 = "sys\<lparr>globals := set_default_catlogger_level L (globals sys)\<rparr>"
  have "sys_inv ?sys1"
    using exec_inv [OF assms(1), of "SetDefaultLevel L"] by simp
  from run_inv [OF this, of cs] assms(2)
  obtain sys' where r: "run cs ?sys1 = Some sys'" by auto
  from run_keeps_default [OF r] assms(2)
  have 1: "loggers_default_level (globals sys') = L"
    by (simp add: set_default_catlogger_level_def)
  from run_inv [OF sys_inv_boot, of cs w] assms(2)
  obtain sys0 where r0: "run cs (boot w) = Some sys0" by auto
  from run_keeps_default [OF r0] assms(2)
  have 0: "loggers_default_level (globals sys0) = info"
    by (simp add: boot_def init_state_def)
  from r 1 r0 0 show ?thesis
    by (simp add: get_default_catlogger_level_def set_default_catlogger_level_def init_state_def)
qed

theorem default_level_round_trip_witness:
  "sys_inv net_resolved \<and>
   get_default_catlogger_level (init_state ()) = info \<and>
   get_default_catlogger_level
     (set_default_catlogger_level warn (set_default_catlogger_level err (init_state ()))) = warn \<and>
   (\<exists>sys0. run quiet_calls (boot ()) = Some sys0 \<and>
           get_default_catlogger_level (globals sys0) = info) \<and>
   (\<exists>sys'. run (SetDefaultLevel warn # quiet_calls) net_resolved = Some sys' \<and>
           get_default_catlogger_level (globals sys') = warn)"
  using default_level_round_trip [OF sys_inv_net_resolved quiet_calls_ok, of "()" warn
      "set_default_catlogger_level err (init_state ())"]
  by (simp add: sys_inv_net_resolved)

end
